theory Spec2Isabelle
  imports Main "HOL-Library.Word" "HOL-Library.Multiset"
begin

section \<open>Commands\<close>

text \<open>
  Go's \<open>int\<close> is a fixed-width two's complement integer; on the 64-bit platforms it is
  64 bits wide, which is the width modelled here.
\<close>

type_synonym goint = "64 word"

text \<open>
  The three implementations of the \<open>Command\<close> interface: \<open>stopCommand\<close>,
  \<open>printCommand\<close> (field \<open>arg\<close>) and \<open>addCommand\<close> (fields \<open>arg1\<close>, \<open>arg2\<close>).
  Every command that the program puts into the queue is a non-nil pointer to one of
  them (\<open>main\<close> posts the result of \<open>parse\<close> only when it is not nil), so the nil
  interface value is not a queue entry; \<open>peek\<close> below returns it as \<open>None\<close>.
\<close>

datatype Command =
    stopCommand
  | printCommand (arg: string)
  | addCommand (arg1: goint) (arg2: goint)

datatype error = IndexOutOfRange

section \<open>commandsQueue\<close>

text \<open>
  The field \<open>queue\<close> of \<open>commandsQueue\<close> is a slice of commands, modelled as a list.
  The mutex makes each of \<open>push\<close> and \<open>pull\<close> one atomic operation on that list.
\<close>

type_synonym commandsQueue = "Command list"

text \<open>\<open>pull\<close>: \<open>q.queue[0]\<close> panics with an index error when the slice is empty.\<close>

fun pull :: "commandsQueue \<Rightarrow> error + (Command \<times> commandsQueue)" where
  "pull [] = Inl IndexOutOfRange"
| "pull (cmd # rest) = Inr (cmd, rest)"

text \<open>\<open>peek\<close>: nil on the empty slice, the element at index \<open>len - 1\<close> otherwise.\<close>

definition peek :: "commandsQueue \<Rightarrow> Command option" where
  "peek q = (if length q = 0 then None else Some (q ! (length q - 1)))"

text \<open>
  \<open>push\<close>: when the type assertion \<open>last.(*stopCommand)\<close> succeeds, the last slot is
  overwritten with \<open>cmd\<close> and \<open>last\<close> is appended; otherwise \<open>cmd\<close> is appended.
\<close>

definition push :: "Command \<Rightarrow> commandsQueue \<Rightarrow> commandsQueue" where
  "push cmd q =
     (case peek q of
        Some stopCommand \<Rightarrow> (q[length q - 1 := cmd]) @ [stopCommand]
      | _ \<Rightarrow> q @ [cmd])"

section \<open>EventLoop\<close>

text \<open>
  The struct \<open>EventLoop\<close>: the queue and the flag \<open>isStopped\<close>. The third field,
  \<open>stopSignal\<close>, is an unbuffered channel: it holds no value, and its one send and
  one receive meet in the step \<open>signal_step\<close> below.
\<close>

record EventLoop =
  queue :: commandsQueue
  isStopped :: bool

definition NewEventLoop :: EventLoop where
  "NewEventLoop = \<lparr>queue = [], isStopped = False\<rparr>"

definition Stop :: "'a EventLoop_scheme \<Rightarrow> 'a EventLoop_scheme" where
  "Stop l = l\<lparr>isStopped := True\<rparr>"

definition Post :: "Command \<Rightarrow> 'a EventLoop_scheme \<Rightarrow> 'a EventLoop_scheme" where
  "Post cmd l = l\<lparr>queue := push cmd (queue l)\<rparr>"

section \<open>The running program\<close>

text \<open>
  Where the goroutine started by \<open>Start\<close> stands: at the head of its loop, between
  \<open>pull\<close> and \<open>cmd.Execute(l)\<close> with the pulled command in hand, blocked in the send on
  \<open>stopSignal\<close>, or finished.
\<close>

datatype worker_pc = AtLoop | Executing Command | Sending | Exited

text \<open>
  The state of the running program extends the event loop with: the lines written to
  standard output; the \<open>Post\<close> calls that the driver thread has still to make, in order
  (the last one being the one inside \<open>AwaitFinish\<close>), after which it waits in the receive on
  \<open>stopSignal\<close>; whether that receive has returned; the worker's position; and, as a
  history variable that no code reads, the commands whose \<open>Execute\<close> has been called.
\<close>

record system = EventLoop +
  stdout :: "string list"
  posts :: "Command list"
  returned :: bool
  worker :: worker_pc
  executed :: "Command list"

subsection \<open>strconv.Itoa\<close>

text \<open>Decimal digits of a natural number, most significant first.\<close>

fun digits10 :: "nat \<Rightarrow> string" where
  "digits10 n =
     (if n < 10 then [''0123456789'' ! n]
      else digits10 (n div 10) @ [''0123456789'' ! (n mod 10)])"

declare digits10.simps [simp del]

text \<open>\<open>strconv.Itoa\<close>: the signed value in base 10, with a leading minus sign when negative.\<close>

definition Itoa :: "goint \<Rightarrow> string" where
  "Itoa i =
     (if sint i < 0 then CHR ''-'' # digits10 (nat (- sint i)) else digits10 (nat (sint i)))"

subsection \<open>Execute\<close>

text \<open>
  The three \<open>Execute\<close> methods; the handler they receive is the event loop itself.
  \<open>fmt.Println\<close> adds one line to standard output.
\<close>

fun Execute :: "Command \<Rightarrow> system \<Rightarrow> system" where
  "Execute stopCommand s = Stop s"
| "Execute (printCommand a) s = s\<lparr>stdout := stdout s @ [a]\<rparr>"
| "Execute (addCommand a b) s = Post (printCommand (Itoa (a + b))) s"

text \<open>The commands that the execution of a command posts.\<close>

fun posted_by :: "Command \<Rightarrow> Command list" where
  "posted_by (addCommand a b) = [printCommand (Itoa (a + b))]"
| "posted_by _ = []"

subsection \<open>Steps of the two threads\<close>

text \<open>
  The driver thread: its next \<open>Post\<close> call, if one is left.
\<close>

definition main_step :: "system \<Rightarrow> system option" where
  "main_step s =
     (case posts s of
        [] \<Rightarrow> None
      | cmd # rest \<Rightarrow> Some (Post cmd (s\<lparr>posts := rest\<rparr>)))"

text \<open>
  The worker goroutine of \<open>Start\<close>. At the loop head it leaves the loop when
  \<open>isStopped\<close> is set, goes round again when the queue is empty, and pulls otherwise; only
  this thread removes elements, so the queue it found non-empty is still non-empty when
  \<open>pull\<close> takes the lock, and the test and the pull are one step. With a command in hand
  it executes it. A panic of \<open>pull\<close> would end the program: it is the result \<open>Inl\<close>.
  A worker that is blocked in the send, or has finished, does not move.
\<close>

definition worker_step :: "system \<Rightarrow> error + system" where
  "worker_step s =
     (case worker s of
        AtLoop \<Rightarrow>
          if isStopped s then Inr (s\<lparr>worker := Sending\<rparr>)
          else if length (queue s) = 0 then Inr s
          else (case pull (queue s) of
                  Inl e \<Rightarrow> Inl e
                | Inr (cmd, rest) \<Rightarrow> Inr (s\<lparr>queue := rest, worker := Executing cmd\<rparr>))
      | Executing cmd \<Rightarrow>
          Inr (Execute cmd (s\<lparr>worker := AtLoop, executed := executed s @ [cmd]\<rparr>))
      | Sending \<Rightarrow> Inr s
      | Exited \<Rightarrow> Inr s)"

text \<open>
  The send \<open>l.stopSignal <- struct{}{}\<close> and the receive \<open><-l.stopSignal\<close> of
  \<open>AwaitFinish\<close> happen together, once the worker has left its loop and the driver has
  made its last \<open>Post\<close>; then \<open>AwaitFinish\<close> returns.
\<close>

definition signal_step :: "system \<Rightarrow> system option" where
  "signal_step s =
     (if worker s = Sending \<and> posts s = [] \<and> \<not> returned s
      then Some (s\<lparr>worker := Exited, returned := True\<rparr>)
      else None)"

text \<open>
  A run interleaves the steps of the two threads. Each step reads or writes the shared
  state once: a \<open>push\<close> or a \<open>pull\<close> under the mutex, the worker's test of
  \<open>isStopped\<close> (a flag that only the worker's own \<open>Execute\<close> calls set), or a line
  written to standard output (only the worker writes there).
\<close>

definition step :: "system \<Rightarrow> system \<Rightarrow> bool" where
  "step s s' \<longleftrightarrow> main_step s = Some s' \<or> worker_step s = Inr s' \<or> signal_step s = Some s'"

inductive reachable :: "system \<Rightarrow> system \<Rightarrow> bool" for s0 :: system where
  start: "reachable s0 s0"
| next_step: "reachable s0 s \<Longrightarrow> step s s' \<Longrightarrow> reachable s0 s'"

text \<open>
  The program after \<open>NewEventLoop\<close> and \<open>Start\<close>, with the \<open>Post\<close> calls \<open>ps\<close> ahead of
  the driver thread.
\<close>

definition started :: "Command list \<Rightarrow> system" where
  "started ps =
     \<lparr>queue = queue NewEventLoop, isStopped = isStopped NewEventLoop,
      stdout = [], posts = ps, returned = False, worker = AtLoop, executed = []\<rparr>"

text \<open>
  A driver that posts the commands \<open>cs\<close> and then calls \<open>AwaitFinish\<close>, which posts a
  Stop command of its own before it waits.
\<close>

definition AwaitFinish_after :: "Command list \<Rightarrow> system" where
  "AwaitFinish_after cs = started (cs @ [stopCommand])"

text \<open>A run under a given schedule: which thread moves next.\<close>

datatype thread = Driver | Worker | Signal

fun move :: "thread \<Rightarrow> system \<Rightarrow> system" where
  "move Driver s = (case main_step s of Some s' \<Rightarrow> s' | None \<Rightarrow> s)"
| "move Worker s = (case worker_step s of Inr s' \<Rightarrow> s' | Inl e \<Rightarrow> s)"
| "move Signal s = (case signal_step s of Some s' \<Rightarrow> s' | None \<Rightarrow> s)"

fun run :: "thread list \<Rightarrow> system \<Rightarrow> system" where
  "run [] s = s"
| "run (t # ts) s = run ts (move t s)"

section \<open>The parser\<close>

text \<open>
  \<open>strings.Fields\<close> splits a line around runs of white space as \<open>unicode.IsSpace\<close>
  defines it. A Go string is a sequence of bytes holding UTF-8. The white space
  characters and their encodings are: tab, line feed, vertical tab, form feed, carriage
  return and space (one byte each); U+0085 and U+00A0 (\<open>C2 85\<close>, \<open>C2 A0\<close>); U+1680
  (\<open>E1 9A 80\<close>); U+2000 to U+200A, U+2028, U+2029 and U+202F (\<open>E2 80\<close> followed by
  \<open>80\<close> to \<open>8A\<close>, \<open>A8\<close>, \<open>A9\<close>, \<open>AF\<close>); U+205F (\<open>E2 81 9F\<close>); and U+3000
  (\<open>E3 80 80\<close>). None of them starts with a continuation byte (\<open>80\<close> to \<open>BF\<close>), so
  one of these byte sequences in a string is always a character of its own, also next
  to invalid UTF-8. \<open>space_width\<close> is the number of bytes of the white space character
  at the head of a string, and 0 when there is none.
\<close>

definition space_width :: "string \<Rightarrow> nat" where
  "space_width s =
     (case s of
        [] \<Rightarrow> 0
      | c # cs \<Rightarrow>
          if c \<in> set [CHR 0x09, CHR 0x0A, CHR 0x0B, CHR 0x0C, CHR 0x0D, CHR 0x20] then 1
          else if c = CHR 0xC2 \<and> take 1 cs \<in> set [[CHR 0x85], [CHR 0xA0]] then 2
          else if c = CHR 0xE1 \<and> take 2 cs = [CHR 0x9A, CHR 0x80] then 3
          else if c = CHR 0xE2 \<and> take 1 cs = [CHR 0x80] \<and> 2 \<le> length cs
                  \<and> (of_char (cs ! 1) :: nat) \<in> set ([0x80 ..< 0x8B] @ [0xA8, 0xA9, 0xAF])
               then 3
          else if c = CHR 0xE2 \<and> take 2 cs = [CHR 0x81, CHR 0x9F] then 3
          else if c = CHR 0xE3 \<and> take 2 cs = [CHR 0x80, CHR 0x80] then 3
          else 0)"

text \<open>
  The scan of \<open>Fields\<close>: \<open>cur\<close> is the field being read. A white space character
  ends it; every other byte is added to it.
\<close>

fun fields_from :: "string \<Rightarrow> string \<Rightarrow> string list" where
  "fields_from cur [] = (if cur = [] then [] else [cur])"
| "fields_from cur (c # cs) =
     (if space_width (c # cs) = 0 then fields_from (cur @ [c]) cs
      else (if cur = [] then [] else [cur])
           @ fields_from [] (drop (space_width (c # cs) - 1) cs))"

definition Fields :: "string \<Rightarrow> string list" where
  "Fields s = fields_from [] s"

text \<open>
  \<open>strconv.Atoi\<close> and the functions it calls, for a 64-bit \<open>int\<close>. \<open>ParseUint\<close> in base
  10 reads digit by digit: a byte that is no digit is a syntax error with value 0; a
  digit that takes the number past \<open>2^64 - 1\<close> is a range error with that bound as
  value, whatever follows it.
\<close>

datatype NumError = ErrSyntax | ErrRange

definition is_digit :: "char \<Rightarrow> bool" where
  "is_digit c \<longleftrightarrow> 48 \<le> (of_char c :: nat) \<and> (of_char c :: nat) \<le> 57"

definition digit_val :: "char \<Rightarrow> nat" where
  "digit_val c = of_char c - 48"

fun ParseUint_loop :: "nat \<Rightarrow> string \<Rightarrow> nat \<times> NumError option" where
  "ParseUint_loop n [] = (n, None)"
| "ParseUint_loop n (c # cs) =
     (if \<not> is_digit c then (0, Some ErrSyntax)
      else if (2 ^ 64 - 1) div 10 + 1 \<le> n then (2 ^ 64 - 1, Some ErrRange)
      else if 2 ^ 64 - 1 < n * 10 + digit_val c then (2 ^ 64 - 1, Some ErrRange)
      else ParseUint_loop (n * 10 + digit_val c) cs)"

definition ParseUint :: "string \<Rightarrow> nat \<times> NumError option" where
  "ParseUint s = (if s = [] then (0, Some ErrSyntax) else ParseUint_loop 0 s)"

text \<open>
  \<open>ParseInt\<close> takes a leading sign off, keeps a syntax error with value 0, and turns a
  magnitude that does not fit into the nearest bound with a range error.
\<close>

definition ParseInt :: "string \<Rightarrow> goint \<times> NumError option" where
  "ParseInt s0 =
     (if s0 = [] then (0, Some ErrSyntax)
      else
        let neg = (hd s0 = CHR ''-'');
            s = (if hd s0 = CHR ''+'' \<or> hd s0 = CHR ''-'' then tl s0 else s0);
            (un, err) = ParseUint s
        in if err = Some ErrSyntax then (0, Some ErrSyntax)
           else if \<not> neg \<and> 2 ^ 63 \<le> un then (2 ^ 63 - 1, Some ErrRange)
           else if neg \<and> 2 ^ 63 < un then (- (2 ^ 63), Some ErrRange)
           else if neg then (- of_nat un, None)
           else (of_nat un, None))"

text \<open>
  \<open>Atoi\<close> has a fast path for strings of 1 to 18 bytes, which cannot overflow, and
  calls \<open>ParseInt\<close> for the others.
\<close>

fun Atoi_loop :: "nat \<Rightarrow> string \<Rightarrow> nat option" where
  "Atoi_loop n [] = Some n"
| "Atoi_loop n (ch # rest) =
     (if \<not> is_digit ch then None else Atoi_loop (n * 10 + digit_val ch) rest)"

definition Atoi :: "string \<Rightarrow> goint \<times> NumError option" where
  "Atoi s0 =
     (if 0 < length s0 \<and> length s0 < 19 then
        let signed = (hd s0 = CHR ''-'' \<or> hd s0 = CHR ''+'');
            s = (if signed then tl s0 else s0)
        in if signed \<and> length s < 1 then (0, Some ErrSyntax)
           else (case Atoi_loop 0 s of
                   None \<Rightarrow> (0, Some ErrSyntax)
                 | Some n \<Rightarrow> (if hd s0 = CHR ''-'' then - of_nat n else of_nat n, None))
      else ParseInt s0)"

text \<open>
  \<open>parse\<close>: \<open>parts[0]\<close>, \<open>args[0]\<close> and \<open>args[1]\<close> panic when the index is out of range;
  the errors of \<open>Atoi\<close> are dropped; any other first word gives nil (\<open>None\<close>).
\<close>

definition parse :: "string \<Rightarrow> error + Command option" where
  "parse line =
     (case Fields line of
        [] \<Rightarrow> Inl IndexOutOfRange
      | command # args \<Rightarrow>
          if command = ''print'' then
            (case args of
               [] \<Rightarrow> Inl IndexOutOfRange
             | a # _ \<Rightarrow> Inr (Some (printCommand a)))
          else if command = ''add'' then
            (case args of
               [] \<Rightarrow> Inl IndexOutOfRange
             | [a] \<Rightarrow> Inl IndexOutOfRange
             | a # b # _ \<Rightarrow> Inr (Some (addCommand (fst (Atoi a)) (fst (Atoi b)))))
          else Inr None)"

text \<open>
  The loop of \<open>main\<close> over the lines of the input: each line is parsed, and the command
  is posted unless it is nil. The result is the list of commands posted, in order, or
  the panic that ends the program.
\<close>

fun main_posts :: "string list \<Rightarrow> error + Command list" where
  "main_posts [] = Inr []"
| "main_posts (line # lines) =
     (case parse line of
        Inl e \<Rightarrow> Inl e
      | Inr None \<Rightarrow> main_posts lines
      | Inr (Some cmd) \<Rightarrow>
          (case main_posts lines of Inl e \<Rightarrow> Inl e | Inr cmds \<Rightarrow> Inr (cmd # cmds)))"

section \<open>Notions used in the statements\<close>

text \<open>The property of the queue that the specification calls the Stop-last invariant.\<close>

definition stop_last :: "commandsQueue \<Rightarrow> bool" where
  "stop_last q \<longleftrightarrow>
     count_list q stopCommand \<le> 1 \<and> (stopCommand \<in> set q \<longrightarrow> last q = stopCommand)"

text \<open>
  The command that the worker has pulled and not yet executed, as a list, and the
  work in front of the worker in the order in which it will take it.
\<close>

definition inflight :: "system \<Rightarrow> Command list" where
  "inflight s = (case worker s of Executing cmd \<Rightarrow> [cmd] | _ \<Rightarrow> [])"

definition work :: "system \<Rightarrow> Command list" where
  "work s = inflight s @ queue s"

text \<open>
  Nothing is lost and nothing is made up: the commands executed, in the worker's hand,
  queued and still to be posted are, counted with multiplicity, the commands \<open>ps\<close> that
  the driver posts and the commands that the executed ones have posted.
\<close>

definition accounted :: "Command list \<Rightarrow> system \<Rightarrow> bool" where
  "accounted ps s \<longleftrightarrow>
     mset (executed s) + mset (inflight s) + mset (queue s) + mset (posts s)
       = mset ps + mset (concat (map posted_by (executed s)))"

text \<open>
  Where the Stop command of \<open>AwaitFinish\<close> is, when no other Stop command is posted:
  not yet posted (last of the driver's posts), queued (last of the queue), in the
  worker's hand, or executed.
\<close>

definition stop_pending :: "system \<Rightarrow> bool" where
  "stop_pending s \<longleftrightarrow>
     \<not> isStopped s \<and> \<not> returned s \<and> stopCommand \<notin> set (inflight s)
     \<and> (worker s = AtLoop \<or> inflight s \<noteq> [])
     \<and> stopCommand \<notin> set (queue s)
     \<and> posts s \<noteq> [] \<and> last (posts s) = stopCommand \<and> stopCommand \<notin> set (butlast (posts s))"

definition stop_queued :: "system \<Rightarrow> bool" where
  "stop_queued s \<longleftrightarrow>
     \<not> isStopped s \<and> \<not> returned s \<and> stopCommand \<notin> set (inflight s)
     \<and> (worker s = AtLoop \<or> inflight s \<noteq> [])
     \<and> posts s = []
     \<and> queue s \<noteq> [] \<and> last (queue s) = stopCommand \<and> stopCommand \<notin> set (butlast (queue s))"

definition stop_in_hand :: "system \<Rightarrow> bool" where
  "stop_in_hand s \<longleftrightarrow>
     \<not> isStopped s \<and> \<not> returned s \<and> worker s = Executing stopCommand
     \<and> posts s = [] \<and> queue s = []"

definition stop_done :: "system \<Rightarrow> bool" where
  "stop_done s \<longleftrightarrow>
     isStopped s \<and> inflight s = [] \<and> posts s = [] \<and> queue s = []"

definition stop_phase :: "system \<Rightarrow> bool" where
  "stop_phase s \<longleftrightarrow> stop_pending s \<or> stop_queued s \<or> stop_in_hand s \<or> stop_done s"

definition drain_inv :: "Command list \<Rightarrow> system \<Rightarrow> bool" where
  "drain_inv ps s \<longleftrightarrow> accounted ps s \<and> stop_phase s"

text \<open>The commands of a list that are not Stop commands, in their order.\<close>

definition nonstop :: "Command list \<Rightarrow> Command list" where
  "nonstop cs = filter (\<lambda>c. c \<noteq> stopCommand) cs"

text \<open>
  The order of the work. Leaving Stop commands aside, the executed commands
  interleave a part \<open>ep\<close> posted by the driver with a part \<open>ed\<close> posted by executed
  commands, the work ahead interleaves \<open>qp\<close> and \<open>qd\<close> likewise, \<open>ep\<close>, \<open>qp\<close> and the
  posts still to be made are the driver's commands \<open>cs\<close> in their order, and \<open>ed\<close>,
  \<open>qd\<close> are what the commands of \<open>ep\<close> have posted, in that order.
\<close>

definition order_inv :: "Command list \<Rightarrow> system \<Rightarrow> bool" where
  "order_inv cs s \<longleftrightarrow>
     (\<exists>ep qp ed qd.
        ep @ qp @ nonstop (posts s) = cs
        \<and> nonstop (executed s) \<in> shuffles ep ed \<and> nonstop (work s) \<in> shuffles qp qd
        \<and> ed @ qd = concat (map posted_by ep))"

text \<open>
  The flag \<open>isStopped\<close> is set only by an executed Stop command, and the worker leaves
  its loop, and \<open>AwaitFinish\<close> returns, only when the flag is set.
\<close>

definition stop_seen :: "system \<Rightarrow> bool" where
  "stop_seen s \<longleftrightarrow>
     (isStopped s \<longrightarrow> stopCommand \<in> set (executed s))
     \<and> (worker s = Sending \<or> worker s = Exited \<or> returned s \<longrightarrow> isStopped s)"







definition scenario :: "Command list" where
  "scenario = [printCommand ''hello'', addCommand 2 3, printCommand ''done'']"


text \<open>
  Three schedules: the driver makes all its posts before the worker moves; the worker
  executes each command as soon as it is posted; and, for a driver whose first post
  is a Stop command, the worker executes that Stop before the driver posts again.
\<close>

definition posts_first :: "thread list" where
  "posts_first = replicate 4 Driver @ replicate 11 Worker @ [Signal]"

definition worker_first :: "thread list" where
  "worker_first =
     concat (replicate 3 [Driver, Worker, Worker])
     @ [Worker, Worker, Driver, Worker, Worker, Worker, Signal]"

definition stop_first :: "thread list" where
  "stop_first = [Driver, Worker, Worker, Worker, Driver, Driver, Signal]"

section \<open>Properties of the queue\<close>

lemma peek_Nil: "peek [] = None"
  by (simp add: peek_def)

lemma peek_snoc: "peek (q @ [c]) = Some c"
  by (simp add: peek_def)

lemma peek_last: "q \<noteq> [] \<Longrightarrow> peek q = Some (last q)"
  by (simp add: peek_def last_conv_nth)

lemma push_Nil: "push cmd [] = [cmd]"
  by (simp add: push_def peek_Nil)

lemma push_snoc_stop: "push cmd (q @ [stopCommand]) = q @ [cmd, stopCommand]"
  by (simp add: push_def peek_snoc)

lemma push_snoc_other: "c \<noteq> stopCommand \<Longrightarrow> push cmd (q @ [c]) = q @ [c, cmd]"
  by (cases c) (simp_all add: push_def peek_snoc)

lemma push_cases:
  "push cmd q =
     (if q \<noteq> [] \<and> last q = stopCommand then butlast q @ [cmd, stopCommand] else q @ [cmd])"
proof (cases q rule: rev_cases)
  case Nil
  then show ?thesis by (simp add: push_Nil)
next
  case (snoc ys y)
  then show ?thesis
    by (cases "y = stopCommand") (simp_all add: push_snoc_stop push_snoc_other)
qed

lemma push_no_stop: "stopCommand \<notin> set q \<Longrightarrow> push cmd q = q @ [cmd]"
  by (cases q rule: rev_cases) (auto simp: push_Nil intro: push_snoc_other)

lemma length_push: "length (push cmd q) = Suc (length q)"
  by (cases q rule: rev_cases) (simp_all add: push_cases)

lemma mset_push: "mset (push cmd q) = add_mset cmd (mset q)"
proof (cases q rule: rev_cases)
  case Nil
  then show ?thesis by (simp add: push_Nil)
next
  case (snoc ys y)
  then show ?thesis
    by (cases "y = stopCommand") (simp_all add: push_snoc_stop push_snoc_other)
qed

lemma count_list_push:
  "count_list (push cmd q) c = count_list q c + (if cmd = c then 1 else 0)"
proof -
  have "count (mset (push cmd q)) c = count (add_mset cmd (mset q)) c"
    by (simp add: mset_push)
  then show ?thesis
    by (simp add: count_mset)
qed

lemma stop_last_iff: "stop_last q \<longleftrightarrow> stopCommand \<notin> set (butlast q)"
proof (cases q rule: rev_cases)
  case Nil
  then show ?thesis by (simp add: stop_last_def)
next
  case (snoc ys y)
  have "count_list ys stopCommand = 0 \<longleftrightarrow> stopCommand \<notin> set ys"
    by (simp add: count_list_0_iff)
  with snoc show ?thesis
    by (cases "y = stopCommand") (auto simp: stop_last_def)
qed

text \<open>
  C6. \<open>push(cmd)\<close> appends \<open>cmd\<close> to the end of the queue, unless the current last
  element is a Stop command: then \<open>cmd\<close> takes the last position and the Stop command
  is appended again after it, so that \<open>cmd\<close> sits immediately before the Stop.
\<close>

theorem push_appends_or_splices:
  "push cmd q =
     (if q \<noteq> [] \<and> last q = stopCommand
      then butlast q @ [cmd] @ [last q]
      else q @ [cmd])"
  by (simp add: push_cases)

theorem push_appends_or_splices_witness:
  "push (printCommand ''a'') [printCommand ''b'', stopCommand]
     = [printCommand ''b'', printCommand ''a'', stopCommand]
   \<and> push (printCommand ''a'') [stopCommand, printCommand ''b'']
     = [stopCommand, printCommand ''b'', printCommand ''a'']
   \<and> push (printCommand ''a'') [] = [printCommand ''a'']"
  using push_appends_or_splices [of "printCommand ''a''" "[printCommand ''b'', stopCommand]"]
    push_appends_or_splices [of "printCommand ''a''" "[stopCommand, printCommand ''b'']"]
    push_appends_or_splices [of "printCommand ''a''" "[]"]
  by simp

text \<open>
  C1, as the code has it. A queue that holds at most one Stop command, in final
  position, keeps that property under \<open>push cmd\<close> unless \<open>cmd\<close> is a second Stop
  (a Stop pushed while a Stop is queued). For every queue state, a Stop command in
  final position before a push leaves a Stop command in final position after it.
\<close>

theorem push_keeps_stop_last:
  "(stop_last q \<and> (cmd \<noteq> stopCommand \<or> stopCommand \<notin> set q) \<longrightarrow> stop_last (push cmd q))
   \<and> (q \<noteq> [] \<and> last q = stopCommand \<longrightarrow> last (push cmd q) = stopCommand)"
proof (cases q rule: rev_cases)
  case Nil
  then show ?thesis by (simp add: push_Nil stop_last_iff)
next
  case (snoc ys y)
  then show ?thesis
    by (cases "y = stopCommand")
      (auto simp: push_snoc_stop push_snoc_other stop_last_iff butlast_append)
qed

theorem push_keeps_stop_last_witness:
  "stop_last [printCommand ''a'', stopCommand]
   \<and> stop_last (push (printCommand ''b'') [printCommand ''a'', stopCommand])
   \<and> last (push (printCommand ''b'') [printCommand ''a'', stopCommand]) = stopCommand
   \<and> stop_last [printCommand ''a'']
   \<and> stop_last (push stopCommand [printCommand ''a''])"
  using push_keeps_stop_last [of "[printCommand ''a'', stopCommand]" "printCommand ''b''"]
    push_keeps_stop_last [of "[printCommand ''a'']" stopCommand]
  by (simp add: stop_last_iff)

text \<open>
  C1 as stated fails: the queue \<open>[Stop]\<close> is reached from the empty queue by one push,
  and pushing a Stop command onto it leaves two Stop commands in the queue.
\<close>

theorem push_stop_twice_two_stops:
  "push stopCommand (push stopCommand []) = [stopCommand, stopCommand]
   \<and> \<not> stop_last (push stopCommand (push stopCommand []))"
  by (simp add: push_Nil push_cases stop_last_def)

text \<open>
  C2, as the code has it. Every push makes the queue one element longer, also the
  push of a Stop command onto a queue that ends in one: after two Stop pushes in
  succession the queue is one element longer than after one, and holds one Stop
  command more.
\<close>

theorem push_stop_twice_length:
  "length (push stopCommand (push stopCommand q)) = Suc (length (push stopCommand q))
   \<and> count_list (push stopCommand (push stopCommand q)) stopCommand
       = Suc (count_list (push stopCommand q) stopCommand)"
  by (simp add: length_push count_list_push)

text \<open>C2 as stated fails on the empty queue: lengths 2 and 1.\<close>

theorem push_stop_twice_length_differs:
  "length (push stopCommand (push stopCommand [])) = 2
   \<and> length (push stopCommand []) = 1
   \<and> length (push stopCommand (push stopCommand [])) \<noteq> length (push stopCommand [])"
  by (simp add: push_Nil push_cases)

section \<open>Properties of the worker and of the commands\<close>

lemma pull_Cons: "q \<noteq> [] \<Longrightarrow> pull q = Inr (hd q, tl q)"
  by (cases q) simp_all

lemma worker_step_AtLoop:
  "worker s = AtLoop \<Longrightarrow> worker_step s =
     Inr (if isStopped s then s\<lparr>worker := Sending\<rparr>
          else if queue s = [] then s
          else s\<lparr>queue := tl (queue s), worker := Executing (hd (queue s))\<rparr>)"
  by (simp add: worker_step_def pull_Cons)

lemma worker_step_Executing:
  "worker s = Executing cmd \<Longrightarrow> worker_step s =
     Inr (Execute cmd (s\<lparr>worker := AtLoop, executed := executed s @ [cmd]\<rparr>))"
  by (simp add: worker_step_def)

lemma worker_step_blocked:
  "worker s = Sending \<or> worker s = Exited \<Longrightarrow> worker_step s = Inr s"
  by (auto simp: worker_step_def)

lemma worker_step_total: "\<exists>s'. worker_step s = Inr s'"
  by (cases "worker s")
    (simp_all add: worker_step_AtLoop worker_step_Executing worker_step_blocked)


text \<open>
  C7. On a non-empty queue \<open>pull\<close> removes and returns the first element and leaves
  the others in order; on the empty queue it panics; and the worker loop, which tests
  for emptiness first, never steps into that panic, from any state.
\<close>

theorem pull_first:
  "(q \<noteq> [] \<longrightarrow> pull q = Inr (hd q, tl q)) \<and> pull [] = Inl IndexOutOfRange
    \<and> worker_step s \<noteq> Inl e"
  using worker_step_total [of s] by (auto simp: pull_Cons)

theorem pull_first_witness:
  "[printCommand ''a'', stopCommand] \<noteq> []
   \<and> pull [printCommand ''a'', stopCommand] = Inr (printCommand ''a'', [stopCommand])
   \<and> worker_step (started []) \<noteq> Inl IndexOutOfRange"
  using pull_first [of "[printCommand ''a'', stopCommand]" "started []" IndexOutOfRange]
  by simp

text \<open>
  C8. \<open>Stop()\<close> sets \<open>isStopped\<close> and changes nothing else: the queue is the same, and
  so is every other part of the state (for the running program: standard output, the
  driver's pending posts, the worker's position).
\<close>

theorem Stop_sets_flag_only:
  "isStopped (Stop l) = True \<and> queue (Stop l) = queue l
   \<and> EventLoop.more (Stop l) = EventLoop.more l"
  by (simp add: Stop_def)

text \<open>
  C9 fails on the code: a line without fields (empty or blank), \<open>print\<close> without an
  argument and \<open>add\<close> with fewer than two arguments make \<open>parse\<close> panic on an index out
  of range, and the panic ends \<open>main\<close>. Only an unknown first word gives nil.
\<close>

theorem parse_panics_on_short_lines:
  "parse [] = Inl IndexOutOfRange
   \<and> parse ''   '' = Inl IndexOutOfRange
   \<and> parse ''print'' = Inl IndexOutOfRange
   \<and> parse ''add 1'' = Inl IndexOutOfRange
   \<and> parse ''hello 1'' = Inr None
   \<and> main_posts [''print a'', [], ''print b''] = Inl IndexOutOfRange"
  by (simp add: parse_def Fields_def space_width_def)

lemma parse_add_non_numeric: "parse ''add x y'' = Inr (Some (addCommand 0 0))"
  by (simp add: parse_def Fields_def space_width_def Atoi_def is_digit_def digit_val_def)

lemma Fields_unicode_space:
  "Fields [CHR ''a'', CHR 0xC2, CHR 0xA0, CHR ''b'', CHR 0xE2, CHR 0x80, CHR 0x83, CHR ''c'']
     = [''a'', ''b'', ''c'']"
  by (simp add: Fields_def space_width_def)

lemma parse_unicode_blank_line: "parse [CHR 0xC2, CHR 0xA0] = Inl IndexOutOfRange"
  by (simp add: parse_def Fields_def space_width_def)

lemma Atoi_range_before_syntax:
  "Atoi ''99999999999999999999x'' = (9223372036854775807, Some ErrRange)"
  "Atoi ''9223372036854775808'' = (9223372036854775807, Some ErrRange)"
  "Atoi ''-9223372036854775809'' = (- 9223372036854775808, Some ErrRange)"
  "Atoi ''12x'' = (0, Some ErrSyntax)"
  "Atoi ''-12'' = (- 12, None)"
  by (simp_all add: Atoi_def ParseInt_def ParseUint_def is_digit_def digit_val_def)

subsection \<open>The text that Itoa gives\<close>




















section \<open>Runs\<close>

lemma main_step_Some:
  "main_step s = Some s' \<longleftrightarrow>
     posts s \<noteq> [] \<and> s' = s\<lparr>queue := push (hd (posts s)) (queue s), posts := tl (posts s)\<rparr>"
  by (cases "posts s") (auto simp: main_step_def Post_def)

lemma signal_step_Some:
  "signal_step s = Some s' \<longleftrightarrow>
     worker s = Sending \<and> posts s = [] \<and> \<not> returned s
     \<and> s' = s\<lparr>worker := Exited, returned := True\<rparr>"
  by (auto simp: signal_step_def)

lemma Execute_fields:
  "queue (Execute cmd s) = fold push (posted_by cmd) (queue s)"
  "isStopped (Execute cmd s) = (isStopped s \<or> cmd = stopCommand)"
  "stdout (Execute cmd s) = stdout s @ (case cmd of printCommand a \<Rightarrow> [a] | _ \<Rightarrow> [])"
  "posts (Execute cmd s) = posts s"
  "returned (Execute cmd s) = returned s"
  "worker (Execute cmd s) = worker s"
  "executed (Execute cmd s) = executed s"
  by (cases cmd; simp add: Stop_def Post_def)+

lemma posted_by_cases: "posted_by cmd = [] \<or> (\<exists>a. posted_by cmd = [printCommand a])"
  by (cases cmd) simp_all

lemma posted_by_posts_nothing: "d \<in> set (posted_by c) \<Longrightarrow> posted_by d = []"
  by (cases c) auto

lemma posted_by_not_stop: "stopCommand \<notin> set (posted_by c)"
  by (cases c) auto


lemma step_move: "move t s = s \<or> step s (move t s)"
  by (cases t) (auto simp: step_def split: option.splits sum.splits)

lemma reachable_move: "reachable s0 s \<Longrightarrow> reachable s0 (move t s)"
  using step_move [of t s] by (auto intro: reachable.next_step)

lemma reachable_run_from: "reachable s0 s \<Longrightarrow> reachable s0 (run ts s)"
  by (induction ts arbitrary: s) (simp_all add: reachable_move)

lemma reachable_run: "reachable s0 (run ts s0)"
  by (rule reachable_run_from) (rule reachable.start)



lemma run_posts_first:
  "returned (run posts_first (AwaitFinish_after scenario))"
  "stdout (run posts_first (AwaitFinish_after scenario)) = [''hello'', ''done'', ''5'']"
  by code_simp+

lemma run_scenario_executed:
  "executed (run posts_first (AwaitFinish_after scenario))
     = [printCommand ''hello'', addCommand 2 3, printCommand ''done'', printCommand ''5'',
        stopCommand]"
  by code_simp

lemma run_stop_first:
  "returned (run stop_first (AwaitFinish_after [stopCommand, printCommand ''x'']))"
  "executed (run stop_first (AwaitFinish_after [stopCommand, printCommand ''x''])) = [stopCommand]"
  "queue (run stop_first (AwaitFinish_after [stopCommand, printCommand ''x'']))
     = [printCommand ''x'', stopCommand]"
  by code_simp+

section \<open>Draining before the stop\<close>

lemma accounted_main:
  assumes "accounted ps s" "main_step s = Some s'"
  shows "accounted ps s'"
proof -
  from assms(2) obtain cmd rest where p: "posts s = cmd # rest"
    and s': "s' = s\<lparr>queue := push cmd (queue s), posts := rest\<rparr>"
    by (cases "posts s") (auto simp: main_step_Some)
  with assms(1) show ?thesis
    by (simp add: accounted_def inflight_def mset_push)
qed

lemma accounted_worker:
  assumes "accounted ps s" "worker_step s = Inr s'"
  shows "accounted ps s'"
proof (cases "worker s")
  case AtLoop
  show ?thesis
  proof (cases "isStopped s \<or> queue s = []")
    case True
    with assms AtLoop show ?thesis
      by (auto simp: worker_step_AtLoop accounted_def inflight_def)
  next
    case False
    then obtain c rest where q: "queue s = c # rest" by (cases "queue s") auto
    with False assms AtLoop show ?thesis
      by (auto simp: worker_step_AtLoop accounted_def inflight_def)
  qed
next
  case (Executing cmd)
  with assms(2) have s': "s' = Execute cmd (s\<lparr>worker := AtLoop, executed := executed s @ [cmd]\<rparr>)"
    by (simp add: worker_step_Executing)
  from posted_by_cases [of cmd] assms(1) Executing show ?thesis
    by (auto simp: s' accounted_def inflight_def Execute_fields mset_push ac_simps)
next
  case Sending
  with assms show ?thesis by (simp add: worker_step_blocked)
next
  case Exited
  with assms show ?thesis by (simp add: worker_step_blocked)
qed

lemma accounted_signal:
  assumes "accounted ps s" "signal_step s = Some s'"
  shows "accounted ps s'"
  using assms by (auto simp: signal_step_Some accounted_def inflight_def)

lemma accounted_step: "accounted ps s \<Longrightarrow> step s s' \<Longrightarrow> accounted ps s'"
  unfolding step_def using accounted_main accounted_worker accounted_signal by blast

lemma stop_phase_main:
  assumes "stop_phase s" "main_step s = Some s'"
  shows "stop_phase s'"
proof -
  from assms(2) obtain cmd rest where p: "posts s = cmd # rest"
    and s': "s' = s\<lparr>queue := push cmd (queue s), posts := rest\<rparr>"
    by (cases "posts s") (auto simp: main_step_Some)
  with assms(1) have pend: "stop_pending s"
    by (auto simp: stop_phase_def stop_queued_def stop_in_hand_def stop_done_def)
  then have q: "push c (queue s) = queue s @ [c]" for c
    by (simp add: stop_pending_def push_no_stop)
  show ?thesis
  proof (cases "rest = []")
    case True
    with pend p have "stop_queued s'"
      by (auto simp: stop_pending_def stop_queued_def s' q inflight_def)
    then show ?thesis by (simp add: stop_phase_def)
  next
    case False
    with pend p have "stop_pending s'"
      by (auto simp: stop_pending_def s' q inflight_def)
    then show ?thesis by (simp add: stop_phase_def)
  qed
qed

lemma stop_phase_signal:
  assumes "stop_phase s" "signal_step s = Some s'"
  shows "stop_phase s'"
proof -
  from assms(2) have w: "worker s = Sending" and s': "s' = s\<lparr>worker := Exited, returned := True\<rparr>"
    by (simp_all add: signal_step_Some)
  with assms(1) have "stop_done s"
    by (auto simp: stop_phase_def stop_pending_def stop_queued_def stop_in_hand_def inflight_def)
  then have "stop_done s'"
    by (simp add: stop_done_def s' inflight_def)
  then show ?thesis by (simp add: stop_phase_def)
qed

lemma stop_phase_pull:
  assumes "stop_phase s" "worker s = AtLoop" "\<not> isStopped s" "queue s = cmd # rest"
  shows "stop_phase (s\<lparr>queue := rest, worker := Executing cmd\<rparr>)"
proof -
  from assms have "stop_pending s \<or> stop_queued s"
    by (auto simp: stop_phase_def stop_in_hand_def stop_done_def)
  then show ?thesis
  proof
    assume "stop_pending s"
    with assms have "stop_pending (s\<lparr>queue := rest, worker := Executing cmd\<rparr>)"
      by (auto simp: stop_pending_def inflight_def)
    then show ?thesis by (simp add: stop_phase_def)
  next
    assume sq: "stop_queued s"
    show ?thesis
    proof (cases "rest = []")
      case True
      with sq assms have "stop_in_hand (s\<lparr>queue := rest, worker := Executing cmd\<rparr>)"
        by (auto simp: stop_queued_def stop_in_hand_def)
      then show ?thesis by (simp add: stop_phase_def)
    next
      case False
      with sq assms have "stop_queued (s\<lparr>queue := rest, worker := Executing cmd\<rparr>)"
        by (auto simp: stop_queued_def inflight_def)
      then show ?thesis by (simp add: stop_phase_def)
    qed
  qed
qed

lemma stop_phase_execute:
  assumes "stop_phase s" "worker s = Executing cmd"
  shows "stop_phase (Execute cmd (s\<lparr>worker := AtLoop, executed := executed s @ [cmd]\<rparr>))"
    (is "stop_phase ?s'")
proof -
  from assms have "stop_pending s \<or> stop_queued s \<or> stop_in_hand s"
    by (auto simp: stop_phase_def stop_done_def inflight_def)
  then consider (pending) "stop_pending s" | (queued) "stop_queued s" | (hand) "stop_in_hand s"
    by blast
  then show ?thesis
  proof cases
    case pending
    with assms have "cmd \<noteq> stopCommand" "stopCommand \<notin> set (queue s)"
      by (auto simp: stop_pending_def inflight_def)
    with pending posted_by_cases [of cmd] have "stop_pending ?s'"
      by (auto simp: stop_pending_def inflight_def Execute_fields push_no_stop)
    then show ?thesis by (simp add: stop_phase_def)
  next
    case queued
    with assms have c: "cmd \<noteq> stopCommand"
      by (auto simp: stop_queued_def inflight_def)
    from queued obtain q where q: "queue s = q @ [stopCommand]" "stopCommand \<notin> set q"
      by (metis stop_queued_def append_butlast_last_id)
    with queued c posted_by_cases [of cmd] have "stop_queued ?s'"
      by (auto simp: stop_queued_def inflight_def Execute_fields push_snoc_stop butlast_append)
    then show ?thesis by (simp add: stop_phase_def)
  next
    case hand
    with assms have "stop_done ?s'"
      by (auto simp: stop_in_hand_def stop_done_def inflight_def Stop_def)
    then show ?thesis by (simp add: stop_phase_def)
  qed
qed

lemma stop_phase_worker:
  assumes "stop_phase s" "worker_step s = Inr s'"
  shows "stop_phase s'"
proof (cases "worker s")
  case AtLoop
  show ?thesis
  proof (cases "isStopped s")
    case True
    with assms(1) have "stop_done s"
      by (auto simp: stop_phase_def stop_pending_def stop_queued_def stop_in_hand_def)
    then have "stop_done (s\<lparr>worker := Sending\<rparr>)"
      by (simp add: stop_done_def inflight_def)
    with True assms(2) AtLoop show ?thesis
      by (simp add: worker_step_AtLoop stop_phase_def)
  next
    case False
    show ?thesis
    proof (cases "queue s")
      case Nil
      with False assms AtLoop show ?thesis by (simp add: worker_step_AtLoop)
    next
      case (Cons cmd rest)
      with False assms(2) AtLoop have "s' = s\<lparr>queue := rest, worker := Executing cmd\<rparr>"
        by (simp add: worker_step_AtLoop)
      with stop_phase_pull [OF assms(1) AtLoop False Cons] show ?thesis by simp
    qed
  qed
next
  case (Executing cmd)
  with assms(2) stop_phase_execute [OF assms(1) Executing] show ?thesis
    by (simp add: worker_step_Executing)
next
  case Sending
  with assms show ?thesis by (simp add: worker_step_blocked)
next
  case Exited
  with assms show ?thesis by (simp add: worker_step_blocked)
qed

lemma drain_inv_step: "drain_inv ps s \<Longrightarrow> step s s' \<Longrightarrow> drain_inv ps s'"
  unfolding step_def drain_inv_def
  using accounted_main accounted_worker accounted_signal
    stop_phase_main stop_phase_worker stop_phase_signal by blast

lemma drain_inv_start:
  "stopCommand \<notin> set cs \<Longrightarrow> drain_inv (cs @ [stopCommand]) (AwaitFinish_after cs)"
  by (simp add: drain_inv_def accounted_def stop_phase_def stop_pending_def
      AwaitFinish_after_def started_def NewEventLoop_def inflight_def)

lemma drain_inv_reachable:
  assumes "stopCommand \<notin> set cs" "reachable (AwaitFinish_after cs) s"
  shows "drain_inv (cs @ [stopCommand]) s"
  using assms(2)
proof (induction rule: reachable.induct)
  case start
  from assms(1) show ?case by (rule drain_inv_start)
next
  case (next_step s s')
  then show ?case by (blast intro: drain_inv_step)
qed

text \<open>
  C4, as the code has it. When the commands \<open>c1 \<dots> cn\<close> posted before \<open>AwaitFinish\<close> are
  not Stop commands, then in every run, whatever the interleaving of the two threads,
  once \<open>AwaitFinish\<close> has returned all of them have been executed, every command posted
  by an executed command has been executed, the executed commands are exactly these and
  the Stop command of \<open>AwaitFinish\<close>, and the queue is empty.
\<close>

theorem drained_before_return:
  assumes "stopCommand \<notin> set cs"
    and "reachable (AwaitFinish_after cs) s"
    and "returned s"
  shows "set cs \<subseteq> set (executed s)
    \<and> (\<forall>cmd \<in> set (executed s). set (posted_by cmd) \<subseteq> set (executed s))
    \<and> mset (executed s) = mset cs + mset (concat (map posted_by (executed s))) + {#stopCommand#}
    \<and> queue s = []"
proof -
  from assms(1,2) have inv: "drain_inv (cs @ [stopCommand]) s"
    by (rule drain_inv_reachable)
  with assms(3) have d: "stop_done s"
    by (auto simp: drain_inv_def stop_phase_def stop_pending_def stop_queued_def
        stop_in_hand_def)
  with inv have m: "mset (executed s) = mset cs + mset (concat (map posted_by (executed s))) + {#stopCommand#}"
    by (simp add: drain_inv_def accounted_def stop_done_def)
  have "set_mset (mset cs) \<subseteq> set_mset (mset (executed s))"
    by (subst m) auto
  then have a: "set cs \<subseteq> set (executed s)" by simp
  have "set_mset (mset (concat (map posted_by (executed s)))) \<subseteq> set_mset (mset (executed s))"
    by (subst m) auto
  then have b: "\<forall>cmd \<in> set (executed s). set (posted_by cmd) \<subseteq> set (executed s)"
    by auto
  from a b m d show ?thesis by (simp add: stop_done_def)
qed

theorem drained_before_return_witness:
  "stopCommand \<notin> set scenario
   \<and> reachable (AwaitFinish_after scenario) (run posts_first (AwaitFinish_after scenario))
   \<and> returned (run posts_first (AwaitFinish_after scenario))
   \<and> set scenario \<subseteq> set (executed (run posts_first (AwaitFinish_after scenario)))
   \<and> printCommand ''5'' \<in> set (executed (run posts_first (AwaitFinish_after scenario)))
   \<and> queue (run posts_first (AwaitFinish_after scenario)) = []"
proof -
  have n: "stopCommand \<notin> set scenario" by (simp add: scenario_def)
  have r: "reachable (AwaitFinish_after scenario) (run posts_first (AwaitFinish_after scenario))"
    by (rule reachable_run)
  from drained_before_return [OF n r run_posts_first(1)] n r run_posts_first(1)
  show ?thesis by (simp add: run_scenario_executed)
qed

text \<open>
  C4 as stated fails when one of the commands is a Stop command: with \<open>Stop\<close>,
  \<open>Print x\<close> posted in that order, the worker can execute the Stop before the Print is
  posted; it leaves its loop, \<open>AwaitFinish\<close> returns, and the Print and the second Stop
  stay in the queue.
\<close>

theorem posted_after_stop_not_executed:
  "reachable (AwaitFinish_after [stopCommand, printCommand ''x''])
     (run stop_first (AwaitFinish_after [stopCommand, printCommand ''x'']))
   \<and> returned (run stop_first (AwaitFinish_after [stopCommand, printCommand ''x'']))
   \<and> printCommand ''x''
       \<notin> set (executed (run stop_first (AwaitFinish_after [stopCommand, printCommand ''x''])))
   \<and> queue (run stop_first (AwaitFinish_after [stopCommand, printCommand ''x'']))
       = [printCommand ''x'', stopCommand]"
  using reachable_run [of "AwaitFinish_after [stopCommand, printCommand ''x'']" stop_first]
    run_stop_first by simp

section \<open>Order of execution\<close>

lemma snoc_in_shuffles_left:
  "zs \<in> shuffles xs ys \<Longrightarrow> zs @ [z] \<in> shuffles (xs @ [z]) ys"
proof (induction zs arbitrary: xs ys)
  case Nil
  then show ?case by simp
next
  case (Cons a zs)
  from Cons.prems show ?case
    by (auto simp: Cons_in_shuffles_iff dest: Cons.IH)
qed

lemma snoc_in_shuffles_right:
  "zs \<in> shuffles xs ys \<Longrightarrow> zs @ [z] \<in> shuffles xs (ys @ [z])"
  using snoc_in_shuffles_left [of zs ys xs z] by (simp add: shuffles_commutes)

lemma append_in_shuffles_right:
  "zs \<in> shuffles xs ys \<Longrightarrow> zs @ ws \<in> shuffles xs (ys @ ws)"
proof (induction ws arbitrary: zs ys)
  case Nil
  then show ?case by simp
next
  case (Cons w ws)
  from Cons.IH [OF snoc_in_shuffles_right [OF Cons.prems, of w]] show ?case by simp
qed

lemma nonstop_append: "nonstop (xs @ ys) = nonstop xs @ nonstop ys"
  by (simp add: nonstop_def)

lemma nonstop_Cons: "nonstop (c # cs) = nonstop [c] @ nonstop cs"
  by (simp add: nonstop_def)

lemma nonstop_push: "nonstop (push cmd q) = nonstop q @ nonstop [cmd]"
proof (cases q rule: rev_cases)
  case Nil
  then show ?thesis by (simp add: push_Nil nonstop_def)
next
  case (snoc ys y)
  then show ?thesis
    by (cases "y = stopCommand") (simp_all add: push_snoc_stop push_snoc_other nonstop_def)
qed

lemma nonstop_posted_by: "nonstop (posted_by cmd) = posted_by cmd"
  by (cases cmd) (simp_all add: nonstop_def)

lemma nonstop_fold_push:
  "nonstop (fold push (posted_by cmd) q) = nonstop q @ posted_by cmd"
  by (cases cmd) (simp_all add: nonstop_push, simp_all add: nonstop_def)

lemma nonstop_id: "stopCommand \<notin> set cs \<Longrightarrow> nonstop cs = cs"
  by (auto simp: nonstop_def filter_id_conv)

lemma order_inv_start: "order_inv (nonstop ps) (started ps)"
  by (simp add: order_inv_def work_def inflight_def started_def NewEventLoop_def nonstop_def)

lemma order_inv_main:
  assumes "order_inv cs s" "main_step s = Some s'"
  shows "order_inv cs s'"
proof -
  from assms(2) obtain cmd rest where p: "posts s = cmd # rest"
    and s': "s' = s\<lparr>queue := push cmd (queue s), posts := rest\<rparr>"
    by (cases "posts s") (auto simp: main_step_Some)
  have w: "nonstop (work s') = nonstop (work s) @ nonstop [cmd]"
    by (simp add: work_def inflight_def s' nonstop_append nonstop_push)
  have e: "executed s' = executed s" "posts s' = rest" by (simp_all add: s')
  from assms(1) obtain ep qp ed qd where
    c: "ep @ qp @ nonstop (posts s) = cs"
    and ex: "nonstop (executed s) \<in> shuffles ep ed" and wk: "nonstop (work s) \<in> shuffles qp qd"
    and d: "ed @ qd = concat (map posted_by ep)"
    by (auto simp: order_inv_def)
  show ?thesis
  proof (cases "cmd = stopCommand")
    case True
    then have "nonstop (work s') = nonstop (work s)" "nonstop (posts s') = nonstop (posts s)"
      by (simp_all add: w e p) (simp_all add: nonstop_def)
    with c ex wk d e(1) show ?thesis unfolding order_inv_def by metis
  next
    case False
    then have n: "nonstop [cmd] = [cmd]" "nonstop (posts s) = cmd # nonstop (posts s')"
      by (simp_all add: nonstop_def p e)
    have "ep @ (qp @ [cmd]) @ nonstop (posts s') = cs" using c n by simp
    moreover have "nonstop (executed s') \<in> shuffles ep ed" using ex by (simp add: e)
    moreover have "nonstop (work s') \<in> shuffles (qp @ [cmd]) qd"
      using wk by (simp add: w n snoc_in_shuffles_left)
    ultimately show ?thesis using d unfolding order_inv_def by blast
  qed
qed

lemma order_inv_execute:
  assumes "order_inv cs s" "worker s = Executing cmd"
  shows "order_inv cs (Execute cmd (s\<lparr>worker := AtLoop, executed := executed s @ [cmd]\<rparr>))"
    (is "order_inv cs ?s'")
proof -
  have wk_s: "nonstop (work s) = nonstop [cmd] @ nonstop (queue s)"
    using assms(2) by (simp add: work_def inflight_def nonstop_Cons [of cmd "queue s"])
  have w': "nonstop (work ?s') = nonstop (queue s) @ posted_by cmd"
    by (simp add: work_def inflight_def Execute_fields nonstop_fold_push)
  have ex': "nonstop (executed ?s') = nonstop (executed s) @ nonstop [cmd]"
    "posts ?s' = posts s"
    by (simp_all add: Execute_fields nonstop_append)
  from assms(1) obtain ep qp ed qd where
    c: "ep @ qp @ nonstop (posts s) = cs"
    and e: "nonstop (executed s) \<in> shuffles ep ed" and wk: "nonstop (work s) \<in> shuffles qp qd"
    and d: "ed @ qd = concat (map posted_by ep)"
    by (auto simp: order_inv_def)
  show ?thesis
  proof (cases "cmd = stopCommand")
    case True
    then have "nonstop [cmd] = []" "posted_by cmd = []" by (simp_all add: nonstop_def)
    with wk_s w' ex' have "nonstop (work ?s') = nonstop (work s)"
      "nonstop (executed ?s') = nonstop (executed s)" "posts ?s' = posts s"
      by simp_all
    with c e wk d show ?thesis unfolding order_inv_def by metis
  next
    case False
    then have n: "nonstop [cmd] = [cmd]" by (simp add: nonstop_def)
    from wk have "cmd # nonstop (queue s) \<in> shuffles qp qd"
      by (simp add: wk_s n)
    then have "(qp \<noteq> [] \<and> hd qp = cmd \<and> nonstop (queue s) \<in> shuffles (tl qp) qd)
        \<or> (qd \<noteq> [] \<and> hd qd = cmd \<and> nonstop (queue s) \<in> shuffles qp (tl qd))"
      by (simp add: Cons_in_shuffles_iff)
    then show ?thesis
    proof
      assume "qp \<noteq> [] \<and> hd qp = cmd \<and> nonstop (queue s) \<in> shuffles (tl qp) qd"
      then obtain qp' where qp: "qp = cmd # qp'" and a: "nonstop (queue s) \<in> shuffles qp' qd"
        by (cases qp) auto
      have "(ep @ [cmd]) @ qp' @ nonstop (posts ?s') = cs"
        using c qp by (simp add: ex')
      moreover have "nonstop (executed ?s') \<in> shuffles (ep @ [cmd]) ed"
        using e by (simp add: ex' n snoc_in_shuffles_left)
      moreover have "nonstop (work ?s') \<in> shuffles qp' (qd @ posted_by cmd)"
        using a by (simp add: w' append_in_shuffles_right)
      moreover have "ed @ (qd @ posted_by cmd) = concat (map posted_by (ep @ [cmd]))"
        using d by simp
      ultimately show ?thesis unfolding order_inv_def by blast
    next
      assume "qd \<noteq> [] \<and> hd qd = cmd \<and> nonstop (queue s) \<in> shuffles qp (tl qd)"
      then obtain qd' where qd: "qd = cmd # qd'" and b: "nonstop (queue s) \<in> shuffles qp qd'"
        by (cases qd) auto
      with d have "cmd \<in> set (concat (map posted_by ep))"
        by (metis in_set_conv_decomp)
      then have none_posted: "posted_by cmd = []"
        by (auto dest: posted_by_posts_nothing)
      have "ep @ qp @ nonstop (posts ?s') = cs"
        using c by (simp add: ex')
      moreover have "nonstop (executed ?s') \<in> shuffles ep (ed @ [cmd])"
        using e by (simp add: ex' n snoc_in_shuffles_right)
      moreover have "nonstop (work ?s') \<in> shuffles qp qd'"
        using b w' none_posted by simp
      moreover have "(ed @ [cmd]) @ qd' = concat (map posted_by ep)"
        using d qd by simp
      ultimately show ?thesis unfolding order_inv_def by blast
    qed
  qed
qed

lemma order_inv_pull:
  assumes "order_inv cs s" "worker s = AtLoop" "queue s = cmd # rest"
  shows "order_inv cs (s\<lparr>queue := rest, worker := Executing cmd\<rparr>)"
proof -
  have "work (s\<lparr>queue := rest, worker := Executing cmd\<rparr>) = work s"
    using assms(2,3) by (simp add: work_def inflight_def)
  with assms(1) show ?thesis
    by (simp add: order_inv_def)
qed

lemma order_inv_worker:
  assumes "order_inv cs s" "worker_step s = Inr s'"
  shows "order_inv cs s'"
proof (cases "worker s")
  case AtLoop
  show ?thesis
  proof (cases "isStopped s")
    case True
    with assms(2) AtLoop have "s' = s\<lparr>worker := Sending\<rparr>"
      by (simp add: worker_step_AtLoop)
    with assms(1) AtLoop show ?thesis
      by (simp add: order_inv_def work_def inflight_def)
  next
    case False
    show ?thesis
    proof (cases "queue s")
      case Nil
      with False assms AtLoop show ?thesis by (simp add: worker_step_AtLoop)
    next
      case (Cons cmd rest)
      with False assms(2) AtLoop have "s' = s\<lparr>queue := rest, worker := Executing cmd\<rparr>"
        by (simp add: worker_step_AtLoop)
      with order_inv_pull [OF assms(1) AtLoop Cons] show ?thesis by simp
    qed
  qed
next
  case (Executing cmd)
  with assms(2) order_inv_execute [OF assms(1) Executing] show ?thesis
    by (simp add: worker_step_Executing)
next
  case Sending
  with assms show ?thesis by (simp add: worker_step_blocked)
next
  case Exited
  with assms show ?thesis by (simp add: worker_step_blocked)
qed

lemma order_inv_signal:
  assumes "order_inv cs s" "signal_step s = Some s'"
  shows "order_inv cs s'"
  using assms by (auto simp: signal_step_Some order_inv_def work_def inflight_def)

lemma order_inv_reachable:
  assumes "reachable (started ps) s"
  shows "order_inv (nonstop ps) s"
  using assms
proof (induction rule: reachable.induct)
  case start
  show ?case by (rule order_inv_start)
next
  case (next_step s s')
  then show ?case
    unfolding step_def using order_inv_main order_inv_worker order_inv_signal by blast
qed

lemma stop_seen_step:
  assumes "stop_seen s" "step s s'"
  shows "stop_seen s'"
proof -
  from assms(2) consider (main) "main_step s = Some s'" | (worker) "worker_step s = Inr s'"
    | (signal) "signal_step s = Some s'"
    unfolding step_def by blast
  then show ?thesis
  proof cases
    case main
    with assms(1) show ?thesis by (auto simp: main_step_Some stop_seen_def)
  next
    case signal
    with assms(1) show ?thesis by (auto simp: signal_step_Some stop_seen_def)
  next
    case worker
    show ?thesis
    proof (cases "worker s")
      case AtLoop
      with worker assms(1) show ?thesis
        by (auto simp: worker_step_AtLoop stop_seen_def split: if_splits)
    next
      case (Executing cmd)
      with worker have s': "s' = Execute cmd (s\<lparr>worker := AtLoop, executed := executed s @ [cmd]\<rparr>)"
        by (simp add: worker_step_Executing)
      have "isStopped s' = (isStopped s \<or> cmd = stopCommand)"
        "executed s' = executed s @ [cmd]" "worker s' = AtLoop" "returned s' = returned s"
        unfolding s' by (simp_all only: Execute_fields) simp_all
      with assms(1) show ?thesis
        unfolding stop_seen_def by auto
    next
      case Sending
      with worker assms(1) show ?thesis by (simp add: worker_step_blocked)
    next
      case Exited
      with worker assms(1) show ?thesis by (simp add: worker_step_blocked)
    qed
  qed
qed

lemma stop_seen_reachable: "reachable (started ps) s \<Longrightarrow> stop_seen s"
proof (induction rule: reachable.induct)
  case start
  show ?case by (simp add: stop_seen_def started_def NewEventLoop_def)
next
  case (next_step s s')
  then show ?case by (blast intro: stop_seen_step)
qed

lemma accounted_reachable: "reachable (started ps) s \<Longrightarrow> accounted ps s"
proof (induction rule: reachable.induct)
  case start
  show ?case by (simp add: accounted_def started_def NewEventLoop_def inflight_def)
next
  case (next_step s s')
  then show ?case by (blast intro: accounted_step)
qed

lemma returned_stop_posted:
  assumes "reachable (started ps) s" "returned s"
  shows "stopCommand \<in> set ps"
proof -
  from assms have "stopCommand \<in> set (executed s)"
    using stop_seen_reachable [OF assms(1)] by (simp add: stop_seen_def)
  then have "stopCommand \<in># mset (executed s) + mset (inflight s) + mset (queue s)
      + mset (posts s)"
    by simp
  with accounted_reachable [OF assms(1)]
  have "stopCommand \<in># mset ps + mset (concat (map posted_by (executed s)))"
    by (simp only: accounted_def)
  moreover have "stopCommand \<notin> set (concat (map posted_by (executed s)))"
    using posted_by_not_stop by auto
  ultimately show ?thesis by auto
qed

text \<open>
  C5. The driver posts the non-Stop commands \<open>c1 \<dots> cn\<close> in this order, and then
  either nothing or, by calling \<open>AwaitFinish\<close>, one Stop command. At every moment of
  every run \<open>c1 \<dots> cn\<close> splits into the commands executed (\<open>ep\<close>), the commands queued
  or in the worker's hand (\<open>qp\<close>) and the commands not yet posted, in this order; the
  log of executed commands holds \<open>ep\<close> in this order, interleaved only with Print
  commands that the Add commands of \<open>ep\<close> have posted, and the work ahead holds \<open>qp\<close> in
  this order likewise (the Stop command of \<open>AwaitFinish\<close> left aside in both). Once
  \<open>AwaitFinish\<close> has returned, \<open>ep\<close> is all of \<open>c1 \<dots> cn\<close>.
\<close>

theorem executed_in_posting_order:
  assumes "stopCommand \<notin> set cs"
    and "fin = [] \<or> fin = [stopCommand]"
    and "reachable (started (cs @ fin)) s"
  shows "\<exists>ep qp ed qd.
      ep @ qp @ nonstop (posts s) = cs
      \<and> nonstop (executed s) \<in> shuffles ep ed
      \<and> nonstop (work s) \<in> shuffles qp qd
      \<and> ed @ qd = concat (map posted_by ep)
      \<and> (returned s \<longrightarrow> ep = cs \<and> qd = [])"
proof -
  from assms(1,2) have n: "nonstop (cs @ fin) = cs"
    by (auto simp: nonstop_append nonstop_id) (simp add: nonstop_def)
  from order_inv_reachable [OF assms(3)] obtain ep qp ed qd where
    c: "ep @ qp @ nonstop (posts s) = cs"
    and e: "nonstop (executed s) \<in> shuffles ep ed" and w: "nonstop (work s) \<in> shuffles qp qd"
    and d: "ed @ qd = concat (map posted_by ep)"
    unfolding n order_inv_def by blast
  have "ep = cs \<and> qd = []" if r: "returned s"
  proof -
    from returned_stop_posted [OF assms(3) r] assms(1,2) have fin: "fin = [stopCommand]"
      by auto
    with assms(3) have "reachable (AwaitFinish_after cs) s"
      by (simp add: AwaitFinish_after_def)
    with assms(1) have "drain_inv (cs @ [stopCommand]) s"
      by (rule drain_inv_reachable)
    with r have "stop_done s"
      by (auto simp: drain_inv_def stop_phase_def stop_pending_def stop_queued_def
          stop_in_hand_def)
    then have "work s = []" "posts s = []"
      by (simp_all add: stop_done_def work_def)
    with w c show ?thesis by (simp add: nonstop_def)
  qed
  with c e w d show ?thesis by blast
qed

lemma run_posts_first_order:
  "nonstop (executed (run posts_first (started (scenario @ [stopCommand]))))
     = [printCommand ''hello'', addCommand 2 3, printCommand ''done'', printCommand ''5'']"
  "returned (run posts_first (started (scenario @ [stopCommand])))"
  by code_simp+

lemma run_worker_first_order:
  "nonstop (executed (run worker_first (started (scenario @ []))))
     = [printCommand ''hello'', addCommand 2 3, printCommand ''5'', printCommand ''done'']"
  by code_simp

theorem executed_in_posting_order_witness:
  "stopCommand \<notin> set scenario
   \<and> reachable (started (scenario @ [stopCommand]))
       (run posts_first (started (scenario @ [stopCommand])))
   \<and> returned (run posts_first (started (scenario @ [stopCommand])))
   \<and> nonstop (executed (run posts_first (started (scenario @ [stopCommand]))))
       = [printCommand ''hello'', addCommand 2 3, printCommand ''done'', printCommand ''5'']
   \<and> (\<exists>ed. [printCommand ''hello'', addCommand 2 3, printCommand ''done'', printCommand ''5'']
           \<in> shuffles scenario ed
         \<and> ed = concat (map posted_by scenario))
   \<and> reachable (started (scenario @ [])) (run worker_first (started (scenario @ [])))
   \<and> (\<exists>ep qp ed qd. ep @ qp = scenario
         \<and> [printCommand ''hello'', addCommand 2 3, printCommand ''5'', printCommand ''done'']
             \<in> shuffles ep ed)"
proof -
  have n: "stopCommand \<notin> set scenario" by (simp add: scenario_def)
  have f: "[stopCommand] = [] \<or> [stopCommand] = [stopCommand]" by simp
  have g: "([] :: Command list) = [] \<or> [] = [stopCommand]" by simp
  have r: "reachable (started (scenario @ [stopCommand]))
      (run posts_first (started (scenario @ [stopCommand])))"
    by (rule reachable_run)
  have r': "reachable (started (scenario @ [])) (run worker_first (started (scenario @ [])))"
    by (rule reachable_run)
  from executed_in_posting_order [OF n f r] run_posts_first_order
  have a: "\<exists>ed. [printCommand ''hello'', addCommand 2 3, printCommand ''done'', printCommand ''5'']
           \<in> shuffles scenario ed \<and> ed = concat (map posted_by scenario)"
    by auto
  from executed_in_posting_order [OF n g r'] obtain ep qp ed qd where
    "ep @ qp @ nonstop (posts (run worker_first (started (scenario @ [])))) = scenario"
    "nonstop (executed (run worker_first (started (scenario @ [])))) \<in> shuffles ep ed"
    by blast
  then have b: "\<exists>ep qp ed qd. ep @ qp = scenario
         \<and> [printCommand ''hello'', addCommand 2 3, printCommand ''5'', printCommand ''done'']
             \<in> shuffles ep ed"
    unfolding run_worker_first_order by (metis append_assoc)
  from n r r' run_posts_first_order a b show ?thesis by blast
qed

section \<open>The scenario\<close>








end
